theory Spec2Isabelle
  imports Main "HOL-Library.Monad_Syntax" "HOL-Library.Sublist"
begin

section \<open>The tree engine of \<open>sortedset.go\<close>\<close>

text \<open>
  A value of the Go type \<open>*node[E]\<close> is a pointer: either \<open>nil\<close> or the address of a
  node that the tree owns exclusively (no node is shared, there are no parent pointers). It
  is modelled by the datatype below, \<open>NIL\<close> being the nil pointer. The element type \<open>E\<close>
  ranges over Go's ordered types (strings and integers), here any linear order.

  Every function that dereferences a pointer returns an \<open>option\<close>: \<open>None\<close> is the run-time
  panic of a nil dereference, \<open>Some\<close> the value returned (for a function that mutates its
  argument in place, the argument after the call).
\<close>

datatype 'e node = NIL | Node 'e bool "'e node" "'e node"

text \<open>
  Fields of the struct \<open>SortedSet\<close>: \<open>root\<close> and \<open>size\<close>. The latter is a Go
  \<open>int\<close> that moves by one per call; it is modelled as an unbounded integer, the number
  of calls needed to wrap it around being out of reach.
\<close>

record 'e SortedSet =
  root :: "'e node"
  size' :: int

text \<open>The in-order sequence of a tree; used in statements only.\<close>

fun inorder :: "'e node \<Rightarrow> 'e list" where
  "inorder NIL = []"
| "inorder (Node e c l r) = inorder l @ e # inorder r"

definition bst :: "('e::linorder) node \<Rightarrow> bool" where
  "bst t = sorted_wrt (<) (inorder t)"

text \<open>\<open>isRed\<close>: \<open>root != nil && root.red\<close>.\<close>

fun isRed :: "'e node \<Rightarrow> bool" where
  "isRed NIL = False"
| "isRed (Node e c l r) = c"

text \<open>
  The condition \<open>isRed(n) && isRed(n.left)\<close>: Go's \<open>&&\<close> reads \<open>n.left\<close> only when
  \<open>n\<close> is red, hence not nil.
\<close>

fun isRedRed :: "'e node \<Rightarrow> bool" where
  "isRedRed NIL = False"
| "isRedRed (Node e c l r) = (c \<and> isRed l)"

text \<open>
  The condition \<open>!isRed(n) && !isRed(n.left)\<close>: for a nil \<open>n\<close> the first conjunct is
  true and reading \<open>n.left\<close> panics.
\<close>

fun isBlackBlack :: "'e node \<Rightarrow> bool option" where
  "isBlackBlack NIL = None"
| "isBlackBlack (Node e c l r) = Some (\<not> c \<and> \<not> isRed l)"

text \<open>One child's part of \<open>colorFlip\<close>: \<open>if child != nil { child.red = !child.red }\<close>.\<close>

fun flipChild :: "'e node \<Rightarrow> 'e node" where
  "flipChild NIL = NIL"
| "flipChild (Node e c l r) = Node e (\<not> c) l r"

fun colorFlip :: "'e node \<Rightarrow> 'e node option" where
  "colorFlip NIL = None"
| "colorFlip (Node e c l r) = Some (Node e (\<not> c) (flipChild l) (flipChild r))"

fun rotateLeft :: "'e node \<Rightarrow> 'e node option" where
  "rotateLeft NIL = None"
| "rotateLeft (Node e c l NIL) = None"
| "rotateLeft (Node e c l (Node xe xc xl xr)) = Some (Node xe c (Node e True l xl) xr)"

fun rotateRight :: "'e node \<Rightarrow> 'e node option" where
  "rotateRight NIL = None"
| "rotateRight (Node e c NIL r) = None"
| "rotateRight (Node e c (Node xe xc xl xr) r) = Some (Node xe c xl (Node e True xr r))"

fun insertRotation :: "'e node \<Rightarrow> 'e node option" where
  "insertRotation NIL = None"
| "insertRotation (Node e c l r) = do {
     rt \<leftarrow> (if isRed r \<and> \<not> isRed l then rotateLeft (Node e c l r) else Some (Node e c l r));
     (case rt of
        NIL \<Rightarrow> None
      | Node e1 c1 l1 r1 \<Rightarrow> if isRedRed l1 then rotateRight rt else Some rt)
   }"

lemma size_flipChild: "size (flipChild t) = size t"
  by (cases t) simp_all

lemma size_colorFlip: "colorFlip t = Some t' \<Longrightarrow> size t' = size t"
  by (cases t) (auto simp: size_flipChild)

lemma size_rotateLeft: "rotateLeft t = Some t' \<Longrightarrow> size t' = size t"
  by (induction t rule: rotateLeft.induct) auto

lemma size_rotateRight: "rotateRight t = Some t' \<Longrightarrow> size t' = size t"
  by (induction t rule: rotateRight.induct) auto

text \<open>
  \<open>insert\<close> returns the new subtree root and the flag \<open>inserted\<close>. The colour flip comes
  before the descent, the rotations after it.
\<close>

function insert' :: "('e::linorder) node \<Rightarrow> 'e \<Rightarrow> ('e node \<times> bool) option" where
  "insert' NIL element = Some (Node element True NIL NIL, True)"
| "insert' (Node e c l r) element = do {
     rt \<leftarrow> (if isRed l \<and> isRed r then colorFlip (Node e c l r) else Some (Node e c l r));
     (case rt of
        NIL \<Rightarrow> None
      | Node e1 c1 l1 r1 \<Rightarrow>
          if element < e1 then do {
            (l2, inserted) \<leftarrow> insert' l1 element;
            rt2 \<leftarrow> insertRotation (Node e1 c1 l2 r1);
            Some (rt2, inserted)
          } else if e1 < element then do {
            (r2, inserted) \<leftarrow> insert' r1 element;
            rt2 \<leftarrow> insertRotation (Node e1 c1 l1 r2);
            Some (rt2, inserted)
          } else do {
            rt2 \<leftarrow> insertRotation (Node e1 c1 l1 r1);
            Some (rt2, False)
          })
   }"
  by pat_completeness auto
termination
proof (relation "measure (\<lambda>(t, x). size t)", goal_cases)
  case 1
  show ?case by simp
next
  case (2 e c l r element rt e1 c1 l1 r1)
  then have "size (Node e1 c1 l1 r1) = size (Node e c l r)"
    by (auto simp: size_flipChild split: if_splits)
  then show ?case by simp
next
  case (3 e c l r element rt e1 c1 l1 r1)
  then have "size (Node e1 c1 l1 r1) = size (Node e c l r)"
    by (auto simp: size_flipChild split: if_splits)
  then show ?case by simp
qed

text \<open>\<open>fixUp\<close>, applied on every return of the recursive deletion.\<close>

fun fixUp :: "'e node \<Rightarrow> 'e node option" where
  "fixUp NIL = None"
| "fixUp (Node e c l r) = do {
     rt \<leftarrow> (if isRed r then rotateLeft (Node e c l r) else Some (Node e c l r));
     rt1 \<leftarrow> (case rt of
               NIL \<Rightarrow> None
             | Node e1 c1 l1 r1 \<Rightarrow> if isRedRed l1 then rotateRight rt else Some rt);
     (case rt1 of
        NIL \<Rightarrow> None
      | Node e2 c2 l2 r2 \<Rightarrow> if isRed l2 \<and> isRed r2 then colorFlip rt1 else Some rt1)
   }"

fun moveRedLeft :: "'e node \<Rightarrow> 'e node option" where
  "moveRedLeft t = do {
     rt \<leftarrow> colorFlip t;
     (case rt of
        NIL \<Rightarrow> None
      | Node e c l NIL \<Rightarrow> Some rt
      | Node e c l (Node re rc rl rr) \<Rightarrow>
          if isRed rl then do {
            r1 \<leftarrow> rotateRight (Node re rc rl rr);
            rt1 \<leftarrow> rotateLeft (Node e c l r1);
            colorFlip rt1
          } else Some rt)
   }"

fun moveRedRight :: "'e node \<Rightarrow> 'e node option" where
  "moveRedRight t = do {
     rt \<leftarrow> colorFlip t;
     (case rt of
        NIL \<Rightarrow> None
      | Node e c NIL r \<Rightarrow> Some rt
      | Node e c (Node le lc ll lr) r \<Rightarrow>
          if isRed ll then do {
            rt1 \<leftarrow> rotateRight rt;
            colorFlip rt1
          } else Some rt)
   }"

text \<open>\<open>first\<close>: the loop \<open>for root.left != nil { root = root.left }\<close>.\<close>

fun first :: "'e node \<Rightarrow> 'e node option" where
  "first NIL = None"
| "first (Node e c l r) = (if l \<noteq> NIL then first l else Some (Node e c l r))"

lemma size_moveRedLeft: "moveRedLeft t = Some t' \<Longrightarrow> size t' = size t"
  by (auto simp: size_flipChild split: node.splits if_splits bind_splits
      dest!: size_colorFlip size_rotateLeft size_rotateRight)

lemma size_moveRedRight: "moveRedRight t = Some t' \<Longrightarrow> size t' = size t"
  by (auto simp: size_flipChild split: node.splits if_splits bind_splits
      dest!: size_colorFlip size_rotateLeft size_rotateRight)

function deleteMinimum :: "'e node \<Rightarrow> 'e node option" where
  "deleteMinimum NIL = None"
| "deleteMinimum (Node e c l r) =
     (if l = NIL then Some NIL
      else do {
        b \<leftarrow> isBlackBlack l;
        rt \<leftarrow> (if b then moveRedLeft (Node e c l r) else Some (Node e c l r));
        (case rt of
           NIL \<Rightarrow> None
         | Node e1 c1 l1 r1 \<Rightarrow> do {
             l2 \<leftarrow> deleteMinimum l1;
             fixUp (Node e1 c1 l2 r1)
           })
      })"
  by pat_completeness auto
termination
proof (relation "measure size", goal_cases)
  case 1
  show ?case by simp
next
  case (2 e c l r b rt e1 c1 l1 r1)
  then have "size (Node e1 c1 l1 r1) = size (Node e c l r)"
    using size_moveRedLeft [of "Node e c l r" "Node e1 c1 l1 r1"]
    by (simp split: if_splits)
  then show ?case by simp
qed

text \<open>
  \<open>delete_\<close> and \<open>deleteRight\<close> return the new subtree root and the flag \<open>deleted\<close>.
\<close>

function delete' :: "('e::linorder) node \<Rightarrow> 'e \<Rightarrow> ('e node \<times> bool) option"
  and deleteRight :: "('e::linorder) node \<Rightarrow> 'e \<Rightarrow> ('e node \<times> bool) option" where
  "delete' NIL element = None"
| "delete' (Node e c l r) element =
     (if element < e then
        (if l \<noteq> NIL then do {
           b \<leftarrow> isBlackBlack l;
           rt \<leftarrow> (if b then moveRedLeft (Node e c l r) else Some (Node e c l r));
           (case rt of
              NIL \<Rightarrow> None
            | Node e1 c1 l1 r1 \<Rightarrow> do {
                (l2, deleted) \<leftarrow> delete' l1 element;
                rt1 \<leftarrow> fixUp (Node e1 c1 l2 r1);
                Some (rt1, deleted)
              })
         } else do {
           rt1 \<leftarrow> fixUp (Node e c l r);
           Some (rt1, False)
         })
      else do {
        rt \<leftarrow> (if isRed l then rotateRight (Node e c l r) else Some (Node e c l r));
        (case rt of
           NIL \<Rightarrow> None
         | Node e1 c1 l1 r1 \<Rightarrow>
             if element = e1 \<and> r1 = NIL then Some (NIL, True)
             else do {
               (rt1, deleted) \<leftarrow> (if r1 \<noteq> NIL then deleteRight rt element
                                  else Some (rt, False));
               rt2 \<leftarrow> fixUp rt1;
               Some (rt2, deleted)
             })
      })"
| "deleteRight NIL element = None"
| "deleteRight (Node e c l r) element = do {
     b \<leftarrow> isBlackBlack r;
     rt \<leftarrow> (if b then moveRedRight (Node e c l r) else Some (Node e c l r));
     (case rt of
        NIL \<Rightarrow> None
      | Node e1 c1 l1 r1 \<Rightarrow>
          if element = e1 then do {
            smallest \<leftarrow> first r1;
            (case smallest of
               NIL \<Rightarrow> None
             | Node se sc sl sr \<Rightarrow> do {
                 r2 \<leftarrow> deleteMinimum r1;
                 Some (Node se c1 l1 r2, True)
               })
          } else do {
            (r2, deleted) \<leftarrow> delete' r1 element;
            Some (Node e1 c1 l1 r2, deleted)
          })
   }"
  by pat_completeness auto
termination
proof (relation "measure (\<lambda>x. case x of Inl (t, _) \<Rightarrow> 2 * size t + 1 | Inr (t, _) \<Rightarrow> 2 * size t)",
    goal_cases)
  case 1
  show ?case by simp
next
  case (2 e c l r element b rt e1 c1 l1 r1)
  then have "size (Node e1 c1 l1 r1) = size (Node e c l r)"
    using size_moveRedLeft [of "Node e c l r" "Node e1 c1 l1 r1"]
    by (simp split: if_splits)
  then show ?case by simp
next
  case (3 e c l r element rt e1 c1 l1 r1)
  then have "size rt = size (Node e c l r)"
    using size_rotateRight [of "Node e c l r" rt]
    by (simp split: if_splits)
  then show ?case by simp
next
  case (4 e c l r element b rt e1 c1 l1 r1)
  then have "size (Node e1 c1 l1 r1) = size (Node e c l r)"
    using size_moveRedRight [of "Node e c l r" "Node e1 c1 l1 r1"]
    by (simp split: if_splits)
  then show ?case by simp
qed

section \<open>The set type\<close>

text \<open>The statement \<open>me.root.red = false\<close>.\<close>

fun setBlack :: "'e node \<Rightarrow> 'e node option" where
  "setBlack NIL = None"
| "setBlack (Node e c l r) = Some (Node e False l r)"

text \<open>\<open>Add\<close> returns the set after the call and the result \<open>inserted\<close>.\<close>

definition Add :: "('e::linorder) SortedSet \<Rightarrow> 'e \<Rightarrow> ('e SortedSet \<times> bool) option" where
  "Add me element = do {
     (rt, inserted) \<leftarrow> insert' (root me) element;
     rt1 \<leftarrow> setBlack rt;
     Some (\<lparr>root = rt1, size' = (if inserted then size' me + 1 else size' me)\<rparr>, inserted)
   }"

definition Len :: "'e SortedSet \<Rightarrow> int" where
  "Len me = size' me"

text \<open>
  \<open>all\<close> calls \<open>yield\<close> on the elements in order and stops at the first \<open>false\<close>. The
  consumer is any Go closure: it is given here its own state \<open>'s\<close>, which it reads and
  updates at each call.
\<close>

fun all' :: "'e node \<Rightarrow> ('e \<Rightarrow> 's \<Rightarrow> bool \<times> 's) \<Rightarrow> 's \<Rightarrow> bool \<times> 's" where
  "all' NIL yield s = (True, s)"
| "all' (Node e c l r) yield s =
     (case all' l yield s of
        (False, s1) \<Rightarrow> (False, s1)
      | (True, s1) \<Rightarrow>
          (case yield e s1 of
             (False, s2) \<Rightarrow> (False, s2)
           | (True, s2) \<Rightarrow> all' r yield s2))"

text \<open>\<open>All\<close> returns the iterator, a function of the consumer; its result is dropped.\<close>

definition All' :: "'e SortedSet \<Rightarrow> ('e \<Rightarrow> 's \<Rightarrow> bool \<times> 's) \<Rightarrow> 's \<Rightarrow> 's" where
  "All' me yield s = snd (all' (root me) yield s)"

text \<open>
  A \<open>for element := range me.All()\<close> loop whose body has no \<open>break\<close> or \<open>return\<close> is the
  consumer that runs the body and answers \<open>true\<close>. A body that can panic works on an
  optional state; the panic ends the walk.
\<close>

definition rangeBody :: "('e \<Rightarrow> 's \<Rightarrow> 's option) \<Rightarrow> 'e \<Rightarrow> 's option \<Rightarrow> bool \<times> 's option" where
  "rangeBody body element s =
     (case Option.bind s (body element) of
        None \<Rightarrow> (False, None)
      | Some s1 \<Rightarrow> (True, Some s1))"

text \<open>The loop of \<open>Contains\<close>.\<close>

fun containsLoop :: "('e::linorder) node \<Rightarrow> 'e \<Rightarrow> bool" where
  "containsLoop NIL element = False"
| "containsLoop (Node e c l r) element =
     (if element < e then containsLoop l element
      else if e < element then containsLoop r element
      else True)"

definition Contains :: "('e::linorder) SortedSet \<Rightarrow> 'e \<Rightarrow> bool" where
  "Contains me element = containsLoop (root me) element"

definition Delete :: "('e::linorder) SortedSet \<Rightarrow> 'e \<Rightarrow> ('e SortedSet \<times> bool) option" where
  "Delete me element =
     (if root me \<noteq> NIL then do {
        (rt, deleted) \<leftarrow> delete' (root me) element;
        rt1 \<leftarrow> (if rt \<noteq> NIL then setBlack rt else Some rt);
        Some (\<lparr>root = rt1, size' = (if deleted then size' me - 1 else size' me)\<rparr>, deleted)
      } else Some (me, False))"

text \<open>The zero value \<open>SortedSet[E]{}\<close>.\<close>

definition emptySet :: "'e SortedSet" where
  "emptySet = \<lparr>root = NIL, size' = 0\<rparr>"

text \<open>\<open>New\<close>: the loop over the slice of arguments, adding each to the zero value.\<close>

fun addEach :: "('e::linorder) list \<Rightarrow> 'e SortedSet \<Rightarrow> 'e SortedSet option" where
  "addEach [] sset = Some sset"
| "addEach (element # elements) sset = do {
     (sset1, inserted) \<leftarrow> Add sset element;
     addEach elements sset1
   }"

definition New :: "('e::linorder) list \<Rightarrow> 'e SortedSet option" where
  "New elements = addEach elements emptySet"

text \<open>
  The sequence of elements that \<open>All\<close> yields to a consumer that never asks to stop;
  used in statements.
\<close>

definition yielded :: "'e SortedSet \<Rightarrow> 'e list" where
  "yielded me = All' me (\<lambda>element acc. (True, acc @ [element])) []"

text \<open>
  \<open>ToSlice\<close>: \<open>make([]E, 0, me.Len())\<close> panics when the capacity is negative; the
  loop then appends each element yielded.
\<close>

definition ToSlice :: "'e SortedSet \<Rightarrow> 'e list option" where
  "ToSlice me =
     (if Len me < 0 then None
      else Some (All' me (\<lambda>element slice. (True, slice @ [element])) []))"

definition Intersection :: "('e::linorder) SortedSet \<Rightarrow> 'e SortedSet \<Rightarrow> 'e SortedSet option" where
  "Intersection me other = do {
     intersection \<leftarrow> New [];
     All' me (rangeBody (\<lambda>element acc.
       if Contains other element then do {
         (acc1, inserted) \<leftarrow> Add acc element;
         Some acc1
       } else Some acc)) (Some intersection)
   }"

text \<open>
  A finite sequence of \<open>Add\<close> and \<open>Delete\<close> calls on the zero value, in order.
\<close>

datatype 'e call = AddCall 'e | DeleteCall 'e

fun run :: "('e::linorder) call list \<Rightarrow> 'e SortedSet \<Rightarrow> 'e SortedSet option" where
  "run [] sset = Some sset"
| "run (AddCall element # calls) sset = do {
     (sset1, inserted) \<leftarrow> Add sset element;
     run calls sset1
   }"
| "run (DeleteCall element # calls) sset = do {
     (sset1, deleted) \<leftarrow> Delete sset element;
     run calls sset1
   }"

text \<open>
  The walk over a sequence that the traversal is compared with: yield the elements one by
  one, check after each whether the consumer asked to stop, and if so yield nothing more.
\<close>

fun yieldEach :: "'e list \<Rightarrow> ('e \<Rightarrow> 's \<Rightarrow> bool \<times> 's) \<Rightarrow> 's \<Rightarrow> bool \<times> 's" where
  "yieldEach [] yield s = (True, s)"
| "yieldEach (x # xs) yield s =
     (case yield x s of
        (False, s1) \<Rightarrow> (False, s1)
      | (True, s1) \<Rightarrow> yieldEach xs yield s1)"

text \<open>
  The state of a set whose tree is ordered and whose \<open>size\<close> is the number of its
  nodes; used in statements only.
\<close>

definition counted :: "('e::linorder) SortedSet \<Rightarrow> bool" where
  "counted S = (bst (root S) \<and> size' S = int (length (inorder (root S))))"

text \<open>
  A consumer that also records, in call order, each element it is called with; and the
  elements of a sequence up to and including the first at which the consumer asks to
  stop. Both are used in statements only.
\<close>

definition logged :: "('e \<Rightarrow> 's \<Rightarrow> bool \<times> 's) \<Rightarrow> 'e \<Rightarrow> 'e list \<times> 's \<Rightarrow> bool \<times> ('e list \<times> 's)" where
  "logged yield element = (\<lambda>(log, s).
     case yield element s of (continue, s1) \<Rightarrow> (continue, (log @ [element], s1)))"

fun upToStop :: "'e list \<Rightarrow> ('e \<Rightarrow> 's \<Rightarrow> bool \<times> 's) \<Rightarrow> 's \<Rightarrow> 'e list" where
  "upToStop [] yield s = []"
| "upToStop (x # xs) yield s =
     (case yield x s of
        (False, s1) \<Rightarrow> [x]
      | (True, s1) \<Rightarrow> x # upToStop xs yield s1)"

section \<open>The insertion in the order the specification gives\<close>

text \<open>
  The insertion as the specification words it: descend first; on the way back up from the
  recursive call, (a) flip the colours if both children of the current node are red, then
  (b) apply the rotations.
\<close>

fun insert_flip_after :: "('e::linorder) node \<Rightarrow> 'e \<Rightarrow> ('e node \<times> bool) option" where
  "insert_flip_after NIL element = Some (Node element True NIL NIL, True)"
| "insert_flip_after (Node e c l r) element = do {
     (rt, inserted) \<leftarrow>
       (if element < e then do {
          (l1, inserted) \<leftarrow> insert_flip_after l element;
          Some (Node e c l1 r, inserted)
        } else if e < element then do {
          (r1, inserted) \<leftarrow> insert_flip_after r element;
          Some (Node e c l r1, inserted)
        } else Some (Node e c l r, False));
     rt1 \<leftarrow> (case rt of
               NIL \<Rightarrow> None
             | Node e1 c1 l1 r1 \<Rightarrow> if isRed l1 \<and> isRed r1 then colorFlip rt else Some rt);
     rt2 \<leftarrow> insertRotation rt1;
     Some (rt2, inserted)
   }"

text \<open>What either insertion does to the in-order sequence, and the flag it returns.\<close>

fun inorderInsert :: "('e::linorder) node \<Rightarrow> 'e \<Rightarrow> 'e list \<times> bool" where
  "inorderInsert NIL element = ([element], True)"
| "inorderInsert (Node e c l r) element =
     (if element < e then
        (case inorderInsert l element of (xs, inserted) \<Rightarrow> (xs @ e # inorder r, inserted))
      else if e < element then
        (case inorderInsert r element of (xs, inserted) \<Rightarrow> (inorder l @ e # xs, inserted))
      else (inorder l @ e # inorder r, False))"

section \<open>The display adapter\<close>

text \<open>
  \<open>String\<close> depends on two things outside this repository, taken as parameters. The
  first is how package \<open>fmt\<close> renders one element with the verb \<open>%v\<close> and with the
  verb \<open>%q\<close>: the functions \<open>fmtV\<close> and \<open>fmtQ\<close>. The second is the type argument
  \<open>E\<close>, on which the type assertion \<open>any(element).(string)\<close> depends. The constraint
  \<open>Comparable\<close> is declared in package \<open>unum\<close>; the declaration this repository had
  before reads \<open>~string | ~int | ...\<close>, which admits the predeclared type \<open>string\<close>,
  every defined type whose underlying type is \<open>string\<close> (such as \<open>type Word string\<close>),
  and the integer types.
\<close>

datatype elemType = PredeclaredString | DefinedString | IntegerType

text \<open>
  \<open>_, ok := any(element).(string)\<close>: the assertion holds when the dynamic type of the
  element is identical to \<open>string\<close>, which a defined type is not.
\<close>

fun assertString :: "elemType \<Rightarrow> bool" where
  "assertString PredeclaredString = True"
| "assertString DefinedString = False"
| "assertString IntegerType = False"

text \<open>The element type is a string type: its underlying type is \<open>string\<close>.\<close>

fun textual :: "elemType \<Rightarrow> bool" where
  "textual PredeclaredString = True"
| "textual DefinedString = True"
| "textual IntegerType = False"

text \<open>
  \<open>hasStringElements\<close>: the loop body returns at the first element, which ends the
  traversal; with no element the function returns false.
\<close>

definition hasStringElements :: "elemType \<Rightarrow> 'e SortedSet \<Rightarrow> bool" where
  "hasStringElements ty me = All' me (\<lambda>element ok. (False, assertString ty)) False"

text \<open>
  The loop of \<open>String\<close>: \<open>fmt.Fprintf(&out, format, sep, element)\<close> writes the
  separator and then the element; the separator is empty at first and a space afterwards.
\<close>

fun writeElements :: "('e \<Rightarrow> string) \<Rightarrow> 'e list \<Rightarrow> string \<Rightarrow> string \<Rightarrow> string" where
  "writeElements format [] sep out = out"
| "writeElements format (element # rest) sep out =
     writeElements format rest '' '' (out @ sep @ format element)"

definition String' :: "elemType \<Rightarrow> ('e \<Rightarrow> string) \<Rightarrow> ('e \<Rightarrow> string) \<Rightarrow> 'e SortedSet \<Rightarrow> string option" where
  "String' ty fmtV fmtQ me =
     (let format = (if hasStringElements ty me then fmtQ else fmtV);
          out = ''{''
      in do {
        slice \<leftarrow> ToSlice me;
        Some (writeElements format slice [] out @ ''}'')
      })"

text \<open>
  What \<open>fmt\<close> writes for a string of plain letters, which needs no escape: the
  letters with \<open>%v\<close>, the letters between double quotes with \<open>%q\<close>. Used to evaluate
  \<open>String\<close> on an example.
\<close>

definition lettersV :: "string \<Rightarrow> string" where
  "lettersV w = w"

definition lettersQ :: "string \<Rightarrow> string" where
  "lettersQ w = CHR 0x22 # w @ [CHR 0x22]"

text \<open>A list of words separated by single spaces; used in statements only.\<close>

fun spaced :: "string list \<Rightarrow> string" where
  "spaced [] = []"
| "spaced [w] = w"
| "spaced (w # v # ws) = w @ '' '' @ spaced (v # ws)"

section \<open>Properties of the tree engine\<close>

subsection \<open>Insertion: no panic, no nil result, the elements of the result\<close>

lemma inorder_flipChild [simp]: "inorder (flipChild t) = inorder t"
  by (cases t) simp_all

lemma rotateLeft_Some:
  "isRed r \<Longrightarrow> \<exists>t'. rotateLeft (Node e c l r) = Some t' \<and> t' \<noteq> NIL \<and> inorder t' = inorder l @ e # inorder r"
  by (cases r) auto

lemma rotateRight_Some:
  "isRed l \<Longrightarrow> \<exists>t'. rotateRight (Node e c l r) = Some t' \<and> t' \<noteq> NIL \<and> inorder t' = inorder l @ e # inorder r"
  by (cases l) auto

lemma insertRotation_Some:
  "\<exists>t'. insertRotation (Node e c l r) = Some t' \<and> t' \<noteq> NIL \<and> inorder t' = inorder l @ e # inorder r"
proof -
  obtain rt where rt: "(if isRed r \<and> \<not> isRed l then rotateLeft (Node e c l r) else Some (Node e c l r)) = Some rt"
    "rt \<noteq> NIL" "inorder rt = inorder l @ e # inorder r"
    using rotateLeft_Some [of r e c l] by (cases "isRed r \<and> \<not> isRed l") auto
  then obtain e1 c1 l1 r1 where n: "rt = Node e1 c1 l1 r1" by (cases rt) auto
  have "\<exists>t'. (if isRedRed l1 then rotateRight rt else Some rt) = Some t' \<and> t' \<noteq> NIL \<and> inorder t' = inorder rt"
    using rotateRight_Some [of l1 e1 c1 r1] n by (cases l1) auto
  then show ?thesis using rt n by (auto simp del: rotateLeft.simps rotateRight.simps)
qed

lemma insert'_spec:
  "\<exists>t' b. insert' t x = Some (t', b) \<and> t' \<noteq> NIL
     \<and> set (inorder t') = Set.insert x (set (inorder t))
     \<and> (bst t \<longrightarrow> bst t' \<and> b = (x \<notin> set (inorder t)))"
proof (induction t x rule: insert'.induct)
  case (1 element)
  show ?case by (auto simp: bst_def)
next
  case (2 e c l r element)
  obtain rt where rt: "(if isRed l \<and> isRed r then colorFlip (Node e c l r) else Some (Node e c l r)) = Some rt"
    by (cases "isRed l \<and> isRed r") auto
  then obtain e1 c1 l1 r1 where n: "rt = Node e1 c1 l1 r1" by (cases rt) (auto split: if_splits)
  have io: "e1 = e" "inorder l1 = inorder l" "inorder r1 = inorder r"
    using rt n by (auto split: if_splits)
  show ?case
  proof (cases "element < e1")
    case True
    from "2.IH"(1) [OF rt n True] obtain l2 b where l2: "insert' l1 element = Some (l2, b)"
      "set (inorder l2) = Set.insert element (set (inorder l1))"
      "bst l1 \<longrightarrow> bst l2 \<and> b = (element \<notin> set (inorder l1))" by blast
    obtain t' where t': "insertRotation (Node e1 c1 l2 r1) = Some t'" "t' \<noteq> NIL"
      "inorder t' = inorder l2 @ e1 # inorder r1"
      using insertRotation_Some [of e1 c1 l2 r1] by blast
    have res: "insert' (Node e c l r) element = Some (t', b)"
      using rt n True l2(1) t'(1) by (simp del: insertRotation.simps colorFlip.simps)
    show ?thesis unfolding res using t'(2,3) l2(2,3) io True
      by (auto simp: bst_def sorted_wrt_append)
  next
    case False
    note nlt = this
    show ?thesis
    proof (cases "e1 < element")
      case True
      from "2.IH"(2) [OF rt n nlt True] obtain r2 b where r2: "insert' r1 element = Some (r2, b)"
        "set (inorder r2) = Set.insert element (set (inorder r1))"
        "bst r1 \<longrightarrow> bst r2 \<and> b = (element \<notin> set (inorder r1))" by blast
      obtain t' where t': "insertRotation (Node e1 c1 l1 r2) = Some t'" "t' \<noteq> NIL"
        "inorder t' = inorder l1 @ e1 # inorder r2"
        using insertRotation_Some [of e1 c1 l1 r2] by blast
      have res: "insert' (Node e c l r) element = Some (t', b)"
        using rt n True nlt r2(1) t'(1) by (simp del: insertRotation.simps colorFlip.simps)
      show ?thesis unfolding res using t'(2,3) r2(2,3) io True
        by (auto simp: bst_def sorted_wrt_append)
    next
      case False
      obtain t' where t': "insertRotation (Node e1 c1 l1 r1) = Some t'" "t' \<noteq> NIL"
        "inorder t' = inorder l1 @ e1 # inorder r1"
        using insertRotation_Some [of e1 c1 l1 r1] by blast
      have res: "insert' (Node e c l r) element = Some (t', False)"
        using rt n False nlt t'(1) by (simp del: insertRotation.simps colorFlip.simps)
      have "element = e" using False nlt io by simp
      then show ?thesis unfolding res using t'(2,3) io
        by (auto simp: bst_def sorted_wrt_append)
    qed
  qed
qed

subsection \<open>Deletion: no panic, the result is a subsequence\<close>

lemma inorder_Nil_iff [simp]: "inorder t = [] \<longleftrightarrow> t = NIL"
  by (cases t) auto

lemma isRedRed_isRed: "isRedRed t \<Longrightarrow> isRed t"
  by (cases t) auto

lemma fixUp_Some:
  "\<exists>t'. fixUp (Node e c l r) = Some t' \<and> t' \<noteq> NIL \<and> inorder t' = inorder l @ e # inorder r"
proof -
  obtain rt where rt: "(if isRed r then rotateLeft (Node e c l r) else Some (Node e c l r)) = Some rt"
    "rt \<noteq> NIL" "inorder rt = inorder l @ e # inorder r"
    using rotateLeft_Some [of r e c l] by (cases "isRed r") auto
  then obtain e1 c1 l1 r1 where n: "rt = Node e1 c1 l1 r1" by (cases rt) auto
  obtain rt1 where rt1: "(if isRedRed l1 then rotateRight rt else Some rt) = Some rt1"
     "rt1 \<noteq> NIL" "inorder rt1 = inorder rt"
    using rotateRight_Some [of l1 e1 c1 r1] n isRedRed_isRed [of l1]
    by (cases "isRedRed l1") (auto simp del: rotateRight.simps)
  then obtain e2 c2 l2 r2 where n1: "rt1 = Node e2 c2 l2 r2" by (cases rt1) auto
  have "\<exists>t'. (if isRed l2 \<and> isRed r2 then colorFlip rt1 else Some rt1) = Some t' \<and> t' \<noteq> NIL
      \<and> inorder t' = inorder rt1"
    using n1 by auto
  then show ?thesis using rt n rt1 n1
    by (auto simp del: rotateLeft.simps rotateRight.simps colorFlip.simps)
qed

lemma moveRedLeft_Some:
  assumes "l \<noteq> NIL"
  shows "\<exists>e1 c1 l1 r1. moveRedLeft (Node e c l r) = Some (Node e1 c1 l1 r1) \<and> l1 \<noteq> NIL
     \<and> inorder l1 @ e1 # inorder r1 = inorder l @ e # inorder r"
proof (cases r)
  case NIL
  then show ?thesis using assms by (cases l) auto
next
  case (Node re rc rl rr)
  then show ?thesis using assms by (cases l; cases rl) auto
qed

lemma moveRedRight_Some:
  assumes "r \<noteq> NIL"
  shows "\<exists>e1 c1 l1 r1. moveRedRight (Node e c l r) = Some (Node e1 c1 l1 r1) \<and> r1 \<noteq> NIL
     \<and> inorder l1 @ e1 # inorder r1 = inorder l @ e # inorder r"
proof (cases l)
  case NIL
  then show ?thesis using assms by (cases r) auto
next
  case (Node le lc ll lr)
  then show ?thesis using assms by (cases r; cases ll) auto
qed

lemma isBlackBlack_Some: "t \<noteq> NIL \<Longrightarrow> \<exists>b. isBlackBlack t = Some b"
  by (cases t) auto

lemma first_Some:
  "t \<noteq> NIL \<Longrightarrow> \<exists>e c l r. first t = Some (Node e c l r) \<and> e = hd (inorder t)"
  by (induction t rule: first.induct) (auto split: if_splits simp: hd_append)

lemma subseq_sorted_wrt: "subseq xs ys \<Longrightarrow> sorted_wrt P ys \<Longrightarrow> sorted_wrt P xs"
  by (induction rule: list_emb.induct) (auto elim: list_emb_set)

lemma deleteMinimum_Some:
  "t \<noteq> NIL \<Longrightarrow> \<exists>t'. deleteMinimum t = Some t' \<and> subseq (inorder t') (tl (inorder t))"
proof (induction t rule: deleteMinimum.induct)
  case 1
  then show ?case by simp
next
  case (2 e c l r)
  show ?case
  proof (cases "l = NIL")
    case True
    then show ?thesis by simp
  next
    case False
    then obtain b where b: "isBlackBlack l = Some b" using isBlackBlack_Some by blast
    obtain e1 c1 l1 r1 where rt:
      "(if b then moveRedLeft (Node e c l r) else Some (Node e c l r)) = Some (Node e1 c1 l1 r1)"
      "l1 \<noteq> NIL" "inorder l1 @ e1 # inorder r1 = inorder l @ e # inorder r"
      using moveRedLeft_Some [OF False, of e c r] False by (cases b) (auto simp del: moveRedLeft.simps)
    from "2.IH" [OF False b rt(1) refl rt(2)] obtain l2 where
      l2: "deleteMinimum l1 = Some l2" "subseq (inorder l2) (tl (inorder l1))" by blast
    obtain t' where t': "fixUp (Node e1 c1 l2 r1) = Some t'" "inorder t' = inorder l2 @ e1 # inorder r1"
      using fixUp_Some [of e1 c1 l2 r1] by blast
    have "deleteMinimum (Node e c l r) = Some t'"
      using False b rt(1) l2(1) t'(1) by (simp del: fixUp.simps moveRedLeft.simps)
    moreover have "subseq (inorder t') (tl (inorder (Node e c l r)))"
    proof -
      have "tl (inorder (Node e c l r)) = tl (inorder l1) @ e1 # inorder r1"
        using rt(2,3) by (metis inorder.simps(2) inorder_Nil_iff tl_append2)
      then show ?thesis using l2(2) t'(2) by (simp add: list_emb_append_mono)
    qed
    ultimately show ?thesis by blast
  qed
qed

lemma fixUp_Some_nonnil:
  "t \<noteq> NIL \<Longrightarrow> \<exists>t'. fixUp t = Some t' \<and> t' \<noteq> NIL \<and> inorder t' = inorder t"
  using fixUp_Some by (cases t) (auto simp del: fixUp.simps)

lemma delete'_spec:
  "t \<noteq> NIL \<Longrightarrow> \<exists>t' d. delete' t x = Some (t', d) \<and> subseq (inorder t') (inorder t)
      \<and> (x \<notin> set (inorder t) \<longrightarrow> inorder t' = inorder t \<and> \<not> d)
      \<and> (d \<longrightarrow> length (inorder t') < length (inorder t))"
  and deleteRight_spec:
  "t \<noteq> NIL \<Longrightarrow> \<forall>e c l. t \<noteq> Node e c l NIL \<Longrightarrow>
     \<exists>t' d. deleteRight t x = Some (t', d) \<and> t' \<noteq> NIL \<and> subseq (inorder t') (inorder t)
      \<and> (x \<notin> set (inorder t) \<longrightarrow> inorder t' = inorder t \<and> \<not> d)
      \<and> (d \<longrightarrow> length (inorder t') < length (inorder t))"
proof (induction t x and t x rule: delete'_deleteRight.induct)
  case (1 element)
  then show ?case by simp
next
  case (2 e c l r element)
  show ?case
  proof (cases "element < e")
    case True
    note lt = this
    show ?thesis
    proof (cases "l = NIL")
      case True
      obtain t' where t': "fixUp (Node e c l r) = Some t'" "inorder t' = inorder l @ e # inorder r"
        using fixUp_Some [of e c l r] by blast
      have "delete' (Node e c l r) element = Some (t', False)"
        using lt True t'(1) by (simp del: fixUp.simps)
      then show ?thesis using t'(2) by (auto simp del: delete'.simps)
    next
      case False
      then obtain b where b: "isBlackBlack l = Some b" using isBlackBlack_Some by blast
      obtain e1 c1 l1 r1 where rt:
        "(if b then moveRedLeft (Node e c l r) else Some (Node e c l r)) = Some (Node e1 c1 l1 r1)"
        "l1 \<noteq> NIL" "inorder l1 @ e1 # inorder r1 = inorder l @ e # inorder r"
        using moveRedLeft_Some [OF False, of e c r] False
        by (cases b) (auto simp del: moveRedLeft.simps)
      from "2.IH"(1) [OF lt False b rt(1) refl rt(2)] obtain l2 d where
        l2: "delete' l1 element = Some (l2, d)" "subseq (inorder l2) (inorder l1)"
          "element \<notin> set (inorder l1) \<longrightarrow> inorder l2 = inorder l1 \<and> \<not> d"
          "d \<longrightarrow> length (inorder l2) < length (inorder l1)" by blast
      obtain t' where t': "fixUp (Node e1 c1 l2 r1) = Some t'" "inorder t' = inorder l2 @ e1 # inorder r1"
        using fixUp_Some [of e1 c1 l2 r1] by blast
      have res: "delete' (Node e c l r) element = Some (t', d)"
        using lt False b rt(1) l2(1) t'(1) by (simp del: fixUp.simps moveRedLeft.simps)
      have sub: "subseq (inorder t') (inorder (Node e c l r))"
        using l2(2) t'(2) rt(3) [symmetric] by (simp add: list_emb_append_mono)
      have "element \<notin> set (inorder (Node e c l r)) \<longrightarrow> inorder t' = inorder (Node e c l r) \<and> \<not> d"
      proof
        assume a: "element \<notin> set (inorder (Node e c l r))"
        have "set (inorder l1) \<subseteq> set (inorder (Node e c l r))"
          using rt(3) [symmetric] by auto
        with a have "element \<notin> set (inorder l1)" by blast
        with l2(3) t'(2) rt(3) show "inorder t' = inorder (Node e c l r) \<and> \<not> d" by simp
      qed
      moreover have "d \<longrightarrow> length (inorder t') < length (inorder (Node e c l r))"
        using l2(4) t'(2) rt(3) [symmetric] by simp
      ultimately show ?thesis using res sub by blast
    qed
  next
    case False
    note nlt = this
    obtain e1 c1 l1 r1 where rt:
      "(if isRed l then rotateRight (Node e c l r) else Some (Node e c l r)) = Some (Node e1 c1 l1 r1)"
      "inorder l1 @ e1 # inorder r1 = inorder l @ e # inorder r"
      using rotateRight_Some [of l e c r]
      by (cases "isRed l") (auto simp del: rotateRight.simps, metis inorder.simps(2) node.exhaust)
    show ?thesis
    proof (cases "element = e1 \<and> r1 = NIL")
      case True
      have "delete' (Node e c l r) element = Some (NIL, True)"
        using nlt rt(1) True by (simp del: rotateRight.simps)
      moreover have "element \<in> set (inorder (Node e c l r))"
        using True rt(2) [symmetric] by simp
      ultimately show ?thesis by (auto simp del: delete'.simps)
    next
      case False
      note notleaf = this
      show ?thesis
      proof (cases "r1 = NIL")
        case True
        obtain t' where t': "fixUp (Node e1 c1 l1 r1) = Some t'" "inorder t' = inorder l1 @ e1 # inorder r1"
          using fixUp_Some [of e1 c1 l1 r1] by blast
        have "delete' (Node e c l r) element = Some (t', False)"
          using nlt rt(1) True notleaf t'(1) by (simp del: fixUp.simps rotateRight.simps)
        then show ?thesis using t'(2) rt(2) by (auto simp del: delete'.simps)
      next
        case False
        from "2.IH"(2) [OF nlt rt(1) refl notleaf False] False
        obtain rt1 d where rt1: "deleteRight (Node e1 c1 l1 r1) element = Some (rt1, d)"
          "rt1 \<noteq> NIL" "subseq (inorder rt1) (inorder (Node e1 c1 l1 r1))"
          "element \<notin> set (inorder (Node e1 c1 l1 r1)) \<longrightarrow> inorder rt1 = inorder (Node e1 c1 l1 r1) \<and> \<not> d"
          "d \<longrightarrow> length (inorder rt1) < length (inorder (Node e1 c1 l1 r1))"
          by auto
        obtain t' where t': "fixUp rt1 = Some t'" "inorder t' = inorder rt1"
          using fixUp_Some_nonnil [OF rt1(2)] by blast
        have io: "inorder (Node e1 c1 l1 r1) = inorder (Node e c l r)" using rt(2) by simp
        have "delete' (Node e c l r) element = Some (t', d)"
          using nlt rt(1) False notleaf rt1(1) t'(1) by (simp del: fixUp.simps rotateRight.simps deleteRight.simps)
        then show ?thesis using t'(2) rt1(3,4,5) [unfolded io]
          by (auto simp del: delete'.simps inorder.simps)
      qed
    qed
  qed
next
  case (3 element)
  then show ?case by simp
next
  case (4 e c l r element)
  have rn: "r \<noteq> NIL" using "4.prems"(2) by blast
  then obtain b where b: "isBlackBlack r = Some b" using isBlackBlack_Some by blast
  obtain e1 c1 l1 r1 where rt:
    "(if b then moveRedRight (Node e c l r) else Some (Node e c l r)) = Some (Node e1 c1 l1 r1)"
    "r1 \<noteq> NIL" "inorder l1 @ e1 # inorder r1 = inorder l @ e # inorder r"
    using moveRedRight_Some [OF rn, of e c l] rn
    by (cases b) (auto simp del: moveRedRight.simps)
  show ?case
  proof (cases "element = e1")
    case True
    obtain se sc sl sr where sm: "first r1 = Some (Node se sc sl sr)" "se = hd (inorder r1)"
      using first_Some [OF rt(2)] by blast
    obtain r2 where r2: "deleteMinimum r1 = Some r2" "subseq (inorder r2) (tl (inorder r1))"
      using deleteMinimum_Some [OF rt(2)] by blast
    have res: "deleteRight (Node e c l r) element = Some (Node se c1 l1 r2, True)"
      using b rt(1) True sm(1) r2(1) by (simp del: moveRedRight.simps)
    have "inorder r1 = se # tl (inorder r1)" using sm(2) rt(2) by simp
    then have "subseq (se # inorder r2) (e1 # inorder r1)"
      using r2(2) by (metis subseq_Cons2 list_emb_Cons)
    then have "subseq (inorder (Node se c1 l1 r2)) (inorder (Node e c l r))"
      using rt(3) [symmetric] by (simp add: list_emb_append_mono)
    moreover have "element \<in> set (inorder (Node e c l r))"
      using True rt(3) [symmetric] by simp
    moreover have "length (inorder (Node se c1 l1 r2)) < length (inorder (Node e c l r))"
    proof -
      have "length (inorder r2) \<le> length (tl (inorder r1))"
        using r2(2) by (rule list_emb_length)
      moreover have "inorder r1 \<noteq> []" using rt(2) by simp
      ultimately have "length (inorder r2) < length (inorder r1)"
        by (cases "inorder r1") auto
      then show ?thesis using rt(3) [symmetric] by simp
    qed
    ultimately show ?thesis using res by (auto simp del: deleteRight.simps inorder.simps)
  next
    case False
    from "4.IH" [OF b rt(1) refl False rt(2)] obtain r2 d where
      r2: "delete' r1 element = Some (r2, d)" "subseq (inorder r2) (inorder r1)"
        "element \<notin> set (inorder r1) \<longrightarrow> inorder r2 = inorder r1 \<and> \<not> d"
        "d \<longrightarrow> length (inorder r2) < length (inorder r1)" by blast
    have res: "deleteRight (Node e c l r) element = Some (Node e1 c1 l1 r2, d)"
      using b rt(1) False r2(1) by (simp del: moveRedRight.simps)
    have sub: "subseq (inorder (Node e1 c1 l1 r2)) (inorder (Node e c l r))"
      using r2(2) rt(3) [symmetric] by (simp add: list_emb_append_mono)
    have "element \<notin> set (inorder (Node e c l r)) \<longrightarrow>
       inorder (Node e1 c1 l1 r2) = inorder (Node e c l r) \<and> \<not> d"
    proof
      assume a: "element \<notin> set (inorder (Node e c l r))"
      have "set (inorder r1) \<subseteq> set (inorder (Node e c l r))"
        using rt(3) [symmetric] by auto
      with a have "element \<notin> set (inorder r1)" by blast
      with r2(3) rt(3) show "inorder (Node e1 c1 l1 r2) = inorder (Node e c l r) \<and> \<not> d" by simp
    qed
    moreover have "d \<longrightarrow> length (inorder (Node e1 c1 l1 r2)) < length (inorder (Node e c l r))"
      using r2(4) rt(3) [symmetric] by simp
    ultimately show ?thesis using res sub by blast
  qed
qed

section \<open>Properties of the set operations\<close>

lemma setBlack_Some:
  "t \<noteq> NIL \<Longrightarrow> \<exists>t'. setBlack t = Some t' \<and> t' \<noteq> NIL \<and> \<not> isRed t' \<and> inorder t' = inorder t"
  by (cases t) auto

lemma Add_spec:
  "\<exists>S' b. Add S x = Some (S', b) \<and> root S' \<noteq> NIL \<and> \<not> isRed (root S')
     \<and> set (inorder (root S')) = Set.insert x (set (inorder (root S)))
     \<and> size' S' = (if b then size' S + 1 else size' S)
     \<and> (bst (root S) \<longrightarrow> bst (root S') \<and> b = (x \<notin> set (inorder (root S))))"
proof -
  obtain t b where t: "insert' (root S) x = Some (t, b)" "t \<noteq> NIL"
    "set (inorder t) = Set.insert x (set (inorder (root S)))"
    "bst (root S) \<longrightarrow> bst t \<and> b = (x \<notin> set (inorder (root S)))"
    using insert'_spec [of "root S" x] by blast
  obtain t1 where t1: "setBlack t = Some t1" "t1 \<noteq> NIL" "\<not> isRed t1" "inorder t1 = inorder t"
    using setBlack_Some [OF t(2)] by blast
  have "Add S x = Some (\<lparr>root = t1, size' = (if b then size' S + 1 else size' S)\<rparr>, b)"
    using t(1) t1(1) by (simp add: Add_def)
  then show ?thesis using t(3,4) t1(2,3,4) by (auto simp: bst_def)
qed

lemma Delete_spec:
  "\<exists>S' d. Delete S x = Some (S', d) \<and> \<not> isRed (root S')
     \<and> subseq (inorder (root S')) (inorder (root S))
     \<and> size' S' = (if d then size' S - 1 else size' S)
     \<and> (x \<notin> set (inorder (root S)) \<longrightarrow> inorder (root S') = inorder (root S) \<and> \<not> d)
     \<and> (d \<longrightarrow> length (inorder (root S')) < length (inorder (root S)))"
proof (cases "root S = NIL")
  case True
  then have "Delete S x = Some (S, False)" by (simp add: Delete_def)
  then show ?thesis using True by auto
next
  case False
  obtain t d where t: "delete' (root S) x = Some (t, d)" "subseq (inorder t) (inorder (root S))"
    "x \<notin> set (inorder (root S)) \<longrightarrow> inorder t = inorder (root S) \<and> \<not> d"
    "d \<longrightarrow> length (inorder t) < length (inorder (root S))"
    using delete'_spec [OF False, of x] by blast
  obtain t1 where t1: "(if t \<noteq> NIL then setBlack t else Some t) = Some t1" "\<not> isRed t1"
    "inorder t1 = inorder t"
    using setBlack_Some [of t] by (cases "t = NIL") auto
  have "Delete S x = Some (\<lparr>root = t1, size' = (if d then size' S - 1 else size' S)\<rparr>, d)"
    using False t(1) t1(1) by (simp add: Delete_def)
  then show ?thesis using t(2,3,4) t1(2,3) by auto
qed

lemma bst_subseq: "subseq (inorder t') (inorder t) \<Longrightarrow> bst t \<Longrightarrow> bst t'"
  unfolding bst_def by (rule subseq_sorted_wrt)

lemma yieldEach_append:
  "yieldEach (xs @ ys) yield s =
     (case yieldEach xs yield s of
        (False, s1) \<Rightarrow> (False, s1)
      | (True, s1) \<Rightarrow> yieldEach ys yield s1)"
  by (induction xs arbitrary: s) (auto split: prod.splits bool.splits)

lemma all'_yieldEach: "all' t yield s = yieldEach (inorder t) yield s"
  by (induction t arbitrary: s) (auto simp: yieldEach_append split: prod.splits bool.splits)

lemma yieldEach_collect:
  "yieldEach xs (\<lambda>element slice. (True, slice @ [element])) acc = (True, acc @ xs)"
  by (induction xs arbitrary: acc) auto

lemma yielded_inorder: "yielded S = inorder (root S)"
  by (simp add: yielded_def All'_def all'_yieldEach yieldEach_collect)

lemma ToSlice_yielded: "ToSlice S = (if Len S < 0 then None else Some (yielded S))"
  by (simp add: ToSlice_def yielded_def)

lemma containsLoop_bst: "bst t \<Longrightarrow> containsLoop t x = (x \<in> set (inorder t))"
  by (induction t) (auto simp: bst_def sorted_wrt_append)

lemma bst_unique:
  "bst t \<Longrightarrow> bst t' \<Longrightarrow> set (inorder t) = set (inorder t') \<Longrightarrow> inorder t = inorder t'"
  unfolding bst_def by (rule strict_sorted_equal)

lemma bst_length: "bst t \<Longrightarrow> int (length (inorder t)) = int (card (set (inorder t)))"
  unfolding bst_def by (simp add: strict_sorted_iff distinct_card)

lemma Add_counted:
  assumes "counted S"
  shows "\<exists>S' b. Add S x = Some (S', b) \<and> counted S'
     \<and> set (inorder (root S')) = Set.insert x (set (inorder (root S)))
     \<and> b = (x \<notin> set (inorder (root S)))"
proof -
  obtain S' b where a: "Add S x = Some (S', b)"
    "set (inorder (root S')) = Set.insert x (set (inorder (root S)))"
    "size' S' = (if b then size' S + 1 else size' S)"
    "bst (root S')" "b = (x \<notin> set (inorder (root S)))"
    using Add_spec [of S x] assms by (auto simp: counted_def)
  have "size' S' = int (length (inorder (root S')))"
    using a(2,3,5) assms bst_length [OF a(4)] bst_length [of "root S"]
    by (auto simp: counted_def insert_absorb)
  then show ?thesis using a by (auto simp: counted_def)
qed

lemma addEach_spec:
  "counted S \<Longrightarrow> \<exists>S'. addEach xs S = Some S' \<and> counted S'
     \<and> set (inorder (root S')) = set (inorder (root S)) \<union> set xs"
proof (induction xs arbitrary: S)
  case Nil
  then show ?case by simp
next
  case (Cons x xs)
  obtain S1 b where a: "Add S x = Some (S1, b)" "counted S1"
    "set (inorder (root S1)) = Set.insert x (set (inorder (root S)))"
    using Add_counted [OF Cons.prems, of x] by blast
  from Cons.IH [OF a(2)] a(1,3) show ?case by auto
qed

lemma counted_emptySet: "counted emptySet"
  by (simp add: counted_def emptySet_def bst_def)

lemma New_spec:
  "\<exists>S. New xs = Some S \<and> counted S \<and> set (yielded S) = set xs"
  using addEach_spec [OF counted_emptySet, of xs]
  by (auto simp: New_def yielded_inorder emptySet_def)

lemma counted_yielded:
  "counted S \<Longrightarrow> yielded S = sorted_list_of_set (set (yielded S)) \<and> Len S = int (card (set (yielded S)))"
  by (metis Len_def yielded_inorder bst_def bst_length counted_def
      sorted_list_of_set.idem_if_sorted_distinct strict_sorted_iff)

lemma intersection_loop:
  assumes "counted acc"
  shows "\<exists>acc1. yieldEach xs (rangeBody (\<lambda>element acc.
             if Contains other element then do {
               (acc1, inserted) \<leftarrow> Add acc element;
               Some acc1
             } else Some acc)) (Some acc) = (True, Some acc1)
      \<and> counted acc1
      \<and> set (inorder (root acc1)) = set (inorder (root acc)) \<union> {x \<in> set xs. Contains other x}"
  using assms
proof (induction xs arbitrary: acc)
  case Nil
  then show ?case by simp
next
  case (Cons x xs)
  show ?case
  proof (cases "Contains other x")
    case True
    obtain S1 b where a: "Add acc x = Some (S1, b)" "counted S1"
      "set (inorder (root S1)) = Set.insert x (set (inorder (root acc)))"
      using Add_counted [OF Cons.prems, of x] by blast
    from Cons.IH [OF a(2)] a(1,3) True show ?thesis
      by (auto simp: rangeBody_def)
  next
    case False
    from Cons.IH [OF Cons.prems] False show ?thesis
      by (auto simp: rangeBody_def)
  qed
qed

lemma Intersection_spec:
  "\<exists>I. Intersection A B = Some I \<and> counted I
     \<and> set (yielded I) = {x \<in> set (yielded A). Contains B x}"
  using intersection_loop [OF counted_emptySet, of "inorder (root A)" B]
  by (auto simp: Intersection_def New_def All'_def all'_yieldEach yielded_inorder emptySet_def)

lemma Intersection_comm_bst:
  assumes "bst (root A)" "bst (root B)"
  shows "\<exists>I J. Intersection A B = Some I \<and> Intersection B A = Some J
     \<and> yielded I = yielded J \<and> Len I = Len J"
proof -
  obtain I where i: "Intersection A B = Some I" "counted I"
    "set (yielded I) = {x \<in> set (yielded A). Contains B x}"
    using Intersection_spec [of A B] by blast
  obtain J where j: "Intersection B A = Some J" "counted J"
    "set (yielded J) = {x \<in> set (yielded B). Contains A x}"
    using Intersection_spec [of B A] by blast
  have "set (yielded I) = set (yielded J)"
    using i(3) j(3) assms by (auto simp: Contains_def containsLoop_bst yielded_inorder)
  then have "yielded I = yielded J \<and> Len I = Len J"
    using counted_yielded [OF i(2)] counted_yielded [OF j(2)] by simp
  then show ?thesis using i(1) j(1) by blast
qed

text \<open>
  \<open>size\<close> never falls below the number of nodes: a call that returns true removes at
  least one node.
\<close>

lemma run_size:
  "bst (root S) \<Longrightarrow> int (length (inorder (root S))) \<le> size' S \<Longrightarrow>
     \<exists>S'. run calls S = Some S' \<and> bst (root S') \<and> int (length (inorder (root S'))) \<le> size' S'"
proof (induction calls S rule: run.induct)
  case (1 sset)
  then show ?case by simp
next
  case (2 element calls sset)
  obtain S1 b where a: "Add sset element = Some (S1, b)"
    "set (inorder (root S1)) = Set.insert element (set (inorder (root sset)))"
    "size' S1 = (if b then size' sset + 1 else size' sset)"
    "bst (root S1)" "b = (element \<notin> set (inorder (root sset)))"
    using Add_spec [of sset element] "2.prems"(1) by auto
  have "int (length (inorder (root S1))) \<le> size' S1"
    using a(2,3,5) "2.prems" bst_length [OF a(4)] bst_length [OF "2.prems"(1)]
    by (auto simp: insert_absorb)
  from "2.IH" [OF a(1) refl a(4) this] a(1) show ?case by simp
next
  case (3 element calls sset)
  obtain S1 d where a: "Delete sset element = Some (S1, d)"
    "subseq (inorder (root S1)) (inorder (root sset))"
    "size' S1 = (if d then size' sset - 1 else size' sset)"
    "d \<longrightarrow> length (inorder (root S1)) < length (inorder (root sset))"
    using Delete_spec [of sset element] by blast
  have b: "bst (root S1)" using a(2) "3.prems"(1) by (rule bst_subseq)
  have "length (inorder (root S1)) \<le> length (inorder (root sset))"
    using a(2) by (rule list_emb_length)
  then have "int (length (inorder (root S1))) \<le> size' S1"
    using a(3,4) "3.prems"(2) by auto
  from "3.IH" [OF a(1) refl b this] a(1) show ?case by simp
qed

lemma run_inv:
  "\<exists>S. run calls emptySet = Some S \<and> bst (root S) \<and> int (length (inorder (root S))) \<le> size' S"
  using run_size [of emptySet calls] by (simp add: emptySet_def bst_def)

lemma run_bst: "\<exists>S. run calls emptySet = Some S \<and> bst (root S)"
  using run_inv [of calls] by blast

lemma Add_present:
  assumes "bst (root S)"
  shows "\<exists>S1 b. Add S x = Some (S1, b) \<and> b = (x \<notin> set (yielded S)) \<and> bst (root S1)
     \<and> set (yielded S1) = Set.insert x (set (yielded S))
     \<and> Len S1 = (if b then Len S + 1 else Len S)
     \<and> (\<not> b \<longrightarrow> yielded S1 = yielded S)"
proof -
  obtain S1 b where a: "Add S x = Some (S1, b)"
    "set (inorder (root S1)) = Set.insert x (set (inorder (root S)))"
    "size' S1 = (if b then size' S + 1 else size' S)"
    "bst (root S1)" "b = (x \<notin> set (inorder (root S)))"
    using Add_spec [of S x] assms by auto
  have "\<not> b \<longrightarrow> inorder (root S1) = inorder (root S)"
    using a(2,4,5) assms by (auto intro!: bst_unique)
  then show ?thesis using a by (auto simp: yielded_inorder Len_def)
qed

lemma yieldEach_logged:
  "yieldEach xs (logged yield) (log, s) =
     (fst (yieldEach xs yield s), (log @ upToStop xs yield s, snd (yieldEach xs yield s)))"
  by (induction xs arbitrary: log s) (auto simp: logged_def split: prod.splits bool.splits)

lemma upToStop_prefix: "prefix (upToStop xs yield s) xs"
  by (induction xs arbitrary: s) (auto split: prod.splits bool.splits)

lemma upToStop_stateless:
  "upToStop xs (\<lambda>element s. (p element, s)) s = takeWhile p xs @ take 1 (dropWhile p xs)"
  by (induction xs) auto

subsection \<open>The two insertions on the in-order sequence\<close>

lemma inorderInsert_flipChild [simp]: "inorderInsert (flipChild t) x = inorderInsert t x"
  by (cases t) simp_all

lemma insertRotation_nonnil:
  "t \<noteq> NIL \<Longrightarrow> \<exists>t'. insertRotation t = Some t' \<and> t' \<noteq> NIL \<and> inorder t' = inorder t"
  using insertRotation_Some by (cases t) (auto simp del: insertRotation.simps)

lemma insert'_inorderInsert:
  "\<exists>t' b. insert' t x = Some (t', b) \<and> (inorder t', b) = inorderInsert t x"
proof (induction t x rule: insert'.induct)
  case (1 element)
  show ?case by auto
next
  case (2 e c l r element)
  obtain rt where rt: "(if isRed l \<and> isRed r then colorFlip (Node e c l r) else Some (Node e c l r)) = Some rt"
    by (cases "isRed l \<and> isRed r") auto
  then obtain e1 c1 l1 r1 where n: "rt = Node e1 c1 l1 r1" by (cases rt) (auto split: if_splits)
  have io: "e1 = e" "inorder l1 = inorder l" "inorder r1 = inorder r"
    "inorderInsert l1 element = inorderInsert l element"
    "inorderInsert r1 element = inorderInsert r element"
    using rt n by (auto split: if_splits)
  show ?case
  proof (cases "element < e1")
    case True
    from "2.IH"(1) [OF rt n True] obtain l2 b where l2: "insert' l1 element = Some (l2, b)"
      "(inorder l2, b) = inorderInsert l1 element" by blast
    obtain t' where t': "insertRotation (Node e1 c1 l2 r1) = Some t'"
      "inorder t' = inorder l2 @ e1 # inorder r1"
      using insertRotation_Some [of e1 c1 l2 r1] by blast
    have res: "insert' (Node e c l r) element = Some (t', b)"
      using rt n True l2(1) t'(1) by (simp del: insertRotation.simps colorFlip.simps)
    show ?thesis unfolding res using t'(2) l2(2) [symmetric] io True by simp
  next
    case False
    note nlt = this
    show ?thesis
    proof (cases "e1 < element")
      case True
      from "2.IH"(2) [OF rt n nlt True] obtain r2 b where r2: "insert' r1 element = Some (r2, b)"
        "(inorder r2, b) = inorderInsert r1 element" by blast
      obtain t' where t': "insertRotation (Node e1 c1 l1 r2) = Some t'"
        "inorder t' = inorder l1 @ e1 # inorder r2"
        using insertRotation_Some [of e1 c1 l1 r2] by blast
      have res: "insert' (Node e c l r) element = Some (t', b)"
        using rt n True nlt r2(1) t'(1) by (simp del: insertRotation.simps colorFlip.simps)
      show ?thesis unfolding res using t'(2) r2(2) [symmetric] io True nlt by simp
    next
      case False
      obtain t' where t': "insertRotation (Node e1 c1 l1 r1) = Some t'"
        "inorder t' = inorder l1 @ e1 # inorder r1"
        using insertRotation_Some [of e1 c1 l1 r1] by blast
      have res: "insert' (Node e c l r) element = Some (t', False)"
        using rt n False nlt t'(1) by (simp del: insertRotation.simps colorFlip.simps)
      show ?thesis unfolding res using t'(2) io False nlt by auto
    qed
  qed
qed

lemma flip_after_step:
  "\<exists>rt1 t'. (if isRed l \<and> isRed r then colorFlip (Node e c l r) else Some (Node e c l r)) = Some rt1
       \<and> insertRotation rt1 = Some t' \<and> inorder t' = inorder l @ e # inorder r"
proof -
  obtain rt1 where rt1: "(if isRed l \<and> isRed r then colorFlip (Node e c l r) else Some (Node e c l r)) = Some rt1"
    "rt1 \<noteq> NIL" "inorder rt1 = inorder l @ e # inorder r"
    by (cases "isRed l \<and> isRed r") auto
  obtain t' where "insertRotation rt1 = Some t'" "inorder t' = inorder rt1"
    using insertRotation_nonnil [OF rt1(2)] by blast
  then show ?thesis using rt1 by (auto simp del: insertRotation.simps colorFlip.simps)
qed

lemma insert_flip_after_inorderInsert:
  "\<exists>t' b. insert_flip_after t x = Some (t', b) \<and> (inorder t', b) = inorderInsert t x"
proof (induction t)
  case NIL
  show ?case by auto
next
  case (Node e c l r)
  show ?case
  proof (cases "x < e")
    case True
    from Node.IH(1) obtain l1 b where l1: "insert_flip_after l x = Some (l1, b)"
      "(inorder l1, b) = inorderInsert l x" by blast
    obtain rt1 t' where t':
      "(if isRed l1 \<and> isRed r then colorFlip (Node e c l1 r) else Some (Node e c l1 r)) = Some rt1"
      "insertRotation rt1 = Some t'" "inorder t' = inorder l1 @ e # inorder r"
      using flip_after_step [of l1 r e c] by blast
    have "insert_flip_after (Node e c l r) x = Some (t', b)"
      using True l1(1) t'(1,2) by (simp del: insertRotation.simps colorFlip.simps)
    then show ?thesis using t'(3) l1(2) [symmetric] True by simp
  next
    case False
    note nlt = this
    show ?thesis
    proof (cases "e < x")
      case True
      from Node.IH(2) obtain r1 b where r1: "insert_flip_after r x = Some (r1, b)"
        "(inorder r1, b) = inorderInsert r x" by blast
      obtain rt1 t' where t':
        "(if isRed l \<and> isRed r1 then colorFlip (Node e c l r1) else Some (Node e c l r1)) = Some rt1"
        "insertRotation rt1 = Some t'" "inorder t' = inorder l @ e # inorder r1"
        using flip_after_step [of l r1 e c] by blast
      have "insert_flip_after (Node e c l r) x = Some (t', b)"
        using True nlt r1(1) t'(1,2) by (simp del: insertRotation.simps colorFlip.simps)
      then show ?thesis using t'(3) r1(2) [symmetric] True nlt by simp
    next
      case False
      obtain rt1 t' where t':
        "(if isRed l \<and> isRed r then colorFlip (Node e c l r) else Some (Node e c l r)) = Some rt1"
        "insertRotation rt1 = Some t'" "inorder t' = inorder l @ e # inorder r"
        using flip_after_step [of l r e c] by blast
      have ex: "x = e" using False nlt by simp
      have res: "insert_flip_after (Node e c l r) e = Some (t', False)"
        using t'(1,2) by (simp del: insertRotation.simps colorFlip.simps)
      show ?thesis unfolding ex res using t'(3) by auto
    qed
  qed
qed

subsection \<open>The display adapter\<close>

lemma writeElements_sep:
  "writeElements format xs '' '' out = out @ concat (map (\<lambda>x. '' '' @ format x) xs)"
  by (induction xs arbitrary: out) auto

lemma spaced_Cons: "spaced (w # ws) = w @ concat (map (\<lambda>v. '' '' @ v) ws)"
  by (induction ws arbitrary: w) auto

lemma writeElements_spaced:
  "writeElements format xs [] out = out @ spaced (map format xs)"
  by (cases xs) (auto simp: writeElements_sep spaced_Cons comp_def map_concat)

lemma hasStringElements_eq:
  "hasStringElements ty me = (yielded me \<noteq> [] \<and> assertString ty)"
  by (cases "inorder (root me)")
    (auto simp: hasStringElements_def All'_def all'_yieldEach yielded_inorder)

section \<open>The claims\<close>

text \<open>
  C10. The recursive insert helper never returns nil: for every subtree, nil included, and
  every element it returns without panic a subtree root that is not nil. So the statement
  that blackens the root in \<open>Add\<close> never dereferences nil, and \<open>Add\<close> returns for every
  set and element, the empty set included.
\<close>

theorem insert_never_nil:
  "(\<exists>t' b. insert' t x = Some (t', b) \<and> t' \<noteq> NIL)
   \<and> (\<exists>S' b. Add S x = Some (S', b) \<and> root S' \<noteq> NIL)
   \<and> (\<exists>S' b. Add emptySet x = Some (S', b) \<and> root S' \<noteq> NIL)"
  using insert'_spec [of t x] Add_spec [of S x] Add_spec [of emptySet x] by blast

text \<open>
  C6. After every completed \<open>Add\<close> or \<open>Delete\<close> the root, if present, is black: both
  calls return for every set and element, and the root of the set they leave is nil or
  black (\<open>isRed\<close> is false of it).
\<close>

theorem root_black_after_Add_Delete:
  "(\<exists>S' b. Add S x = Some (S', b) \<and> \<not> isRed (root S'))
   \<and> (\<exists>S' d. Delete S x = Some (S', d) \<and> \<not> isRed (root S'))"
  using Add_spec [of S x] Delete_spec [of S x] by blast

text \<open>
  C4. For every set and every element that its traversal does not yield, \<open>Delete\<close> returns
  false and leaves \<open>Len\<close> and the traversal unchanged. On a set whose root is nil,
  \<open>Delete\<close> returns false with the set as it was, without calling the recursive
  \<open>delete_\<close>, which panics on a nil root.
\<close>

theorem Delete_absent:
  "(x \<notin> set (yielded S) \<longrightarrow>
      (\<exists>S'. Delete S x = Some (S', False) \<and> Len S' = Len S \<and> yielded S' = yielded S))
   \<and> (root S = NIL \<longrightarrow> Delete S x = Some (S, False) \<and> delete' NIL x = None)"
proof -
  obtain S' d where d: "Delete S x = Some (S', d)"
    "size' S' = (if d then size' S - 1 else size' S)"
    "x \<notin> set (inorder (root S)) \<longrightarrow> inorder (root S') = inorder (root S) \<and> \<not> d"
    using Delete_spec [of S x] by blast
  have "x \<notin> set (yielded S) \<longrightarrow>
      (\<exists>S'. Delete S x = Some (S', False) \<and> Len S' = Len S \<and> yielded S' = yielded S)"
    using d by (auto simp: yielded_inorder Len_def)
  moreover have "root S = NIL \<longrightarrow> Delete S x = Some (S, False) \<and> delete' NIL x = None"
    by (simp add: Delete_def)
  ultimately show ?thesis by blast
qed

theorem Delete_absent_witness:
  "(2::int) \<notin> set (yielded \<lparr>root = Node 1 False NIL NIL, size' = 1\<rparr>)
   \<and> (\<exists>S'. Delete \<lparr>root = Node 1 False NIL NIL, size' = 1\<rparr> (2::int) = Some (S', False)
         \<and> Len S' = 1 \<and> yielded S' = [1])
   \<and> root (emptySet :: int SortedSet) = NIL
   \<and> Delete emptySet (2::int) = Some (emptySet, False)"
  using Delete_absent [of "2::int" "\<lparr>root = Node 1 False NIL NIL, size' = 1\<rparr>"]
    Delete_absent [of "2::int" emptySet]
  by (simp add: yielded_inorder Len_def emptySet_def)

text \<open>
  C1, evaluated at a sequence of calls on which it fails. After \<open>Add\<close> of 0, 1, 2, 3, 4
  and \<open>Delete\<close> of 0 and 2 the set should hold 1, 3, 4. The second \<open>Delete\<close> drops the
  node of 4 together with that of 2: the traversal yields 1, 3 while \<open>Len\<close> is 3.
\<close>

theorem Len_exceeds_traversal:
  "run [AddCall 0, AddCall 1, AddCall 2, AddCall 3, AddCall 4, DeleteCall 0, DeleteCall 2]
      (emptySet :: int SortedSet)
     = Some \<lparr>root = Node 3 False (Node 1 True NIL NIL) NIL, size' = 3\<rparr>
   \<and> yielded \<lparr>root = Node 3 False (Node 1 True NIL NIL) NIL, size' = 3\<rparr> = [1, 3 :: int]
   \<and> Len \<lparr>root = Node 3 False (Node 1 True NIL NIL) NIL, size' = (3::int)\<rparr> = 3"
  by (simp add: emptySet_def Add_def Delete_def yielded_inorder Len_def)

text \<open>
  C5. For every sequence of pairwise distinct elements, \<open>New\<close> adds them in the order
  given to an empty set without panic, and \<open>ToSlice\<close> of the result returns the sequence
  sorted in ascending order (and \<open>Len\<close> is its length).
\<close>

theorem New_ToSlice_sorted:
  "distinct xs \<Longrightarrow> \<exists>S. New xs = Some S \<and> ToSlice S = Some (sort xs) \<and> Len S = int (length xs)"
proof -
  assume d: "distinct xs"
  obtain S where s: "New xs = Some S" "counted S" "set (yielded S) = set xs"
    using New_spec [of xs] by blast
  have y: "yielded S = sort xs"
    using counted_yielded [OF s(2)] s(3) d
    by (simp add: sorted_list_of_set_sort_remdups distinct_remdups_id)
  have l: "Len S = int (length xs)"
    using counted_yielded [OF s(2)] s(3) d by (simp add: distinct_card)
  have "ToSlice S = Some (sort xs)"
    using y l by (simp add: ToSlice_yielded)
  then show ?thesis using s(1) l by blast
qed

theorem New_ToSlice_sorted_witness:
  "distinct [3, 1, 2 :: int]
   \<and> (\<exists>S. New [3, 1, 2 :: int] = Some S \<and> ToSlice S = Some [1, 2, 3] \<and> Len S = 3)"
  using New_ToSlice_sorted [of "[3, 1, 2 :: int]"] by simp

text \<open>
  C9. Intersection is commutative. For all sets \<open>A\<close> and \<open>B\<close> that sequences of \<open>Add\<close>
  and \<open>Delete\<close> calls build from the empty set, \<open>Intersection(A, B)\<close> and
  \<open>Intersection(B, A)\<close> both return, and the two results yield the same ascending
  sequence of elements (and have the same \<open>Len\<close>), whichever operand is traversed.
\<close>

theorem Intersection_commutative:
  "\<exists>A B I J. run callsA emptySet = Some A \<and> run callsB emptySet = Some B
     \<and> Intersection A B = Some I \<and> Intersection B A = Some J
     \<and> yielded I = yielded J \<and> Len I = Len J"
proof -
  obtain A where a: "run callsA emptySet = Some A" "bst (root A)"
    using run_bst [of callsA] by blast
  obtain B where b: "run callsB emptySet = Some B" "bst (root B)"
    using run_bst [of callsB] by blast
  from Intersection_comm_bst [OF a(2) b(2)] a(1) b(1) show ?thesis by blast
qed

text \<open>
  C3, amended. For every set \<open>S\<close> that a sequence of \<open>Add\<close> and \<open>Delete\<close> calls builds
  from the empty set and every element \<open>x\<close>: if the traversal of \<open>S\<close> yields \<open>x\<close>, then
  \<open>Add(x)\<close> returns false and leaves \<open>Len\<close> and the traversal unchanged. Adding \<open>x\<close>
  twice, the first call returns true exactly when \<open>x\<close> was absent, the second call returns
  false and changes nothing more, and \<open>Len\<close> changes in total by one when \<open>x\<close> was absent
  and by zero when it was present.
\<close>

theorem Add_twice:
  "\<exists>S. run calls emptySet = Some S
     \<and> (x \<in> set (yielded S) \<longrightarrow>
          (\<exists>S1. Add S x = Some (S1, False) \<and> Len S1 = Len S \<and> yielded S1 = yielded S))
     \<and> (\<exists>S1 b S2. Add S x = Some (S1, b) \<and> Add S1 x = Some (S2, False)
          \<and> b = (x \<notin> set (yielded S))
          \<and> Len S2 = (if x \<in> set (yielded S) then Len S else Len S + 1)
          \<and> yielded S2 = yielded S1)"
proof -
  obtain S where s: "run calls emptySet = Some S" "bst (root S)"
    using run_bst [of calls] by blast
  obtain S1 b where a: "Add S x = Some (S1, b)" "b = (x \<notin> set (yielded S))" "bst (root S1)"
    "set (yielded S1) = Set.insert x (set (yielded S))"
    "Len S1 = (if b then Len S + 1 else Len S)" "\<not> b \<longrightarrow> yielded S1 = yielded S"
    using Add_present [OF s(2), of x] by blast
  obtain S2 b2 where c: "Add S1 x = Some (S2, b2)" "b2 = (x \<notin> set (yielded S1))"
    "Len S2 = (if b2 then Len S1 + 1 else Len S1)" "\<not> b2 \<longrightarrow> yielded S2 = yielded S1"
    using Add_present [OF a(3), of x] by blast
  have nb2: "\<not> b2" using c(2) a(4) by simp
  have 1: "x \<in> set (yielded S) \<longrightarrow>
          (\<exists>S1. Add S x = Some (S1, False) \<and> Len S1 = Len S \<and> yielded S1 = yielded S)"
    using a by auto
  have 2: "\<exists>S1 b S2. Add S x = Some (S1, b) \<and> Add S1 x = Some (S2, False)
          \<and> b = (x \<notin> set (yielded S))
          \<and> Len S2 = (if x \<in> set (yielded S) then Len S else Len S + 1)
          \<and> yielded S2 = yielded S1"
    using a(1,2,5) c nb2 by auto
  from s(1) 1 2 show ?thesis by blast
qed

theorem Add_twice_witness:
  "(1::int) \<in> set (yielded \<lparr>root = Node 1 False NIL NIL, size' = 1\<rparr>)
   \<and> (\<exists>S1. Add \<lparr>root = Node 1 False NIL NIL, size' = 1\<rparr> (1::int) = Some (S1, False)
        \<and> Len S1 = 1 \<and> yielded S1 = [1])"
  using Add_twice [of "[AddCall (1::int)]" 1]
  by (simp add: emptySet_def Add_def yielded_inorder Len_def)

text \<open>
  C3 as stated fails where the element is in the set already: adding 1 twice to the set
  that holds 1 leaves \<open>Len\<close> at 1, a change of zero and not of one.
\<close>

theorem Add_twice_present_counterexample:
  "run [AddCall (1::int)] emptySet = Some \<lparr>root = Node 1 False NIL NIL, size' = 1\<rparr>
   \<and> run [AddCall (1::int), AddCall 1] \<lparr>root = Node 1 False NIL NIL, size' = 1\<rparr>
        = Some \<lparr>root = Node 1 False NIL NIL, size' = 1\<rparr>
   \<and> Len \<lparr>root = Node (1::int) False NIL NIL, size' = 1\<rparr>
        \<noteq> Len \<lparr>root = Node (1::int) False NIL NIL, size' = 1\<rparr> + 1"
  by (simp add: emptySet_def Add_def Len_def)

text \<open>
  C8. The traversal stops early. For every tree and every consumer, whatever state the
  consumer keeps, the elements the consumer is called with are the in-order elements up to
  and including the first one at which it returns false: after that answer no element is
  yielded. The yielded elements are a prefix of the in-order sequence, and for a consumer
  that decides by a predicate \<open>p\<close> they are the longest run of elements satisfying \<open>p\<close>
  followed by the first element that does not.
\<close>

theorem all_stops_at_first_false:
  "all' t (logged yield) ([], s)
     = (fst (all' t yield s), (upToStop (inorder t) yield s, snd (all' t yield s)))
   \<and> All' me (logged yield) ([], s) = (upToStop (yielded me) yield s, All' me yield s)
   \<and> prefix (upToStop (inorder t) yield s) (inorder t)
   \<and> upToStop (inorder t) (\<lambda>element s. (p element, s)) s'
       = takeWhile p (inorder t) @ take 1 (dropWhile p (inorder t))"
  by (simp add: All'_def yielded_inorder all'_yieldEach yieldEach_logged upToStop_prefix
      upToStop_stateless)

text \<open>
  C2, amended. The recursive insert flips the colours before it descends, when both
  children are red on entry, and not on the way back up. It is not equal, as a function on
  trees, to the insertion that flips after the recursive call returns. For every tree and
  element both return, with the same flag \<open>inserted\<close> and the same in-order sequence of
  elements; they can differ in the colours of the nodes.
\<close>

theorem insert_flips_before_descent:
  "\<exists>t1 t2 b. insert' t x = Some (t1, b) \<and> insert_flip_after t x = Some (t2, b)
      \<and> inorder t1 = inorder t2"
  using insert'_inorderInsert [of t x] insert_flip_after_inorderInsert [of t x]
  by (metis prod.inject)

text \<open>
  C2 as stated fails on the tree with black root 2 and red left child 1, which \<open>Add(2)\<close>
  and \<open>Add(1)\<close> build, at element 3. The code finds no two red children before it
  descends and leaves the root black with red children 1 and 3; flipping after the
  recursive call, the root comes out red with black children.
\<close>

theorem insert_flip_order_counterexample:
  "insert' (Node 2 False (Node 1 True NIL NIL) NIL) (3::int)
     = Some (Node 2 False (Node 1 True NIL NIL) (Node 3 True NIL NIL), True)
   \<and> insert_flip_after (Node 2 False (Node 1 True NIL NIL) NIL) (3::int)
     = Some (Node 2 True (Node 1 False NIL NIL) (Node 3 False NIL NIL), True)
   \<and> insert' (Node 2 False (Node 1 True NIL NIL) NIL) (3::int)
     \<noteq> insert_flip_after (Node 2 False (Node 1 True NIL NIL) NIL) 3"
  by simp

text \<open>
  C7, amended. \<open>String\<close> renders the set as the elements in traversal order between
  braces, separated by single spaces; it writes each element with \<open>%q\<close>, quoted, exactly
  when the element type is the predeclared type \<open>string\<close>, and with \<open>%v\<close> for every other
  type, a defined type with underlying type \<open>string\<close> included. The empty set renders as
  \<open>{}\<close>. The traversal order of a set built by \<open>Add\<close> and \<open>Delete\<close> calls is strictly
  ascending, and its \<open>size\<close> is not negative, so that \<open>String\<close> returns.
\<close>

theorem String_rendering:
  "String' ty fmtV fmtQ me
     = (if Len me < 0 then None
        else Some (''{'' @ spaced (map (if ty = PredeclaredString then fmtQ else fmtV) (yielded me))
               @ ''}''))
   \<and> String' ty fmtV fmtQ emptySet = Some ''{}''
   \<and> (\<exists>S. run calls emptySet = Some S \<and> sorted_wrt (<) (yielded S) \<and> 0 \<le> Len S)"
proof -
  have a: "assertString ty = (ty = PredeclaredString)" by (cases ty) auto
  have 1: "String' ty fmtV fmtQ me
     = (if Len me < 0 then None
        else Some (''{'' @ spaced (map (if ty = PredeclaredString then fmtQ else fmtV) (yielded me))
               @ ''}''))"
    by (cases "yielded me = []")
      (simp_all add: String'_def ToSlice_yielded hasStringElements_eq writeElements_spaced a)
  have 2: "String' ty fmtV fmtQ emptySet = Some ''{}''"
    by (simp add: String'_def ToSlice_yielded hasStringElements_eq writeElements_spaced
        yielded_inorder Len_def emptySet_def)
  have 3: "\<exists>S. run calls emptySet = Some S \<and> sorted_wrt (<) (yielded S) \<and> 0 \<le> Len S"
    using run_inv [of calls] by (auto simp: bst_def yielded_inorder Len_def)
  from 1 2 3 show ?thesis by blast
qed

text \<open>
  C7 as stated fails for an element type that is textual without being the predeclared
  type \<open>string\<close>: with \<open>type Word string\<close> the set holding \<open>Word("a")\<close> renders as
  \<open>{a}\<close>, unquoted, while the same set of \<open>string\<close> elements renders quoted.
\<close>

theorem String_defined_string_type_counterexample:
  "textual DefinedString
   \<and> String' DefinedString lettersV lettersQ \<lparr>root = Node ''a'' False NIL NIL, size' = 1\<rparr>
      = Some ''{a}''
   \<and> String' PredeclaredString lettersV lettersQ \<lparr>root = Node ''a'' False NIL NIL, size' = 1\<rparr>
      = Some [CHR ''{'', CHR 0x22, CHR ''a'', CHR 0x22, CHR ''}'']"
  by (simp add: String'_def ToSlice_yielded hasStringElements_eq yielded_inorder Len_def
      lettersV_def lettersQ_def)

end
